theory Spec2Isabelle
  imports Main "HOL-Library.Sublist"
begin

section \<open>The regular expressions of parse.go\<close>

text \<open>
  The five patterns of parse.go are compiled by Go's \<^verbatim>\<open>regexp\<close> package. Its
  documentation fixes the semantics: a match begins as early as possible in the input, and
  among the matches beginning there it is the one a backtracking search finds first. The
  patterns only use literals, single character classes under \<^verbatim>\<open>*\<close>, \<^verbatim>\<open>*?\<close> and
  \<^verbatim>\<open>+?\<close>, and one capture group, so a pattern is a list of nodes and the search is a
  backtracking matcher over that list.

  Text is a list of bytes (\<^typ>\<open>string\<close>). Go matches on UTF-8 code points; every
  character the patterns name is ASCII and an ASCII byte never occurs inside a multi-byte
  code point, so matching byte by byte finds the same matches.
\<close>

datatype cls =
    AnyChar                \<comment> \<open>\<^verbatim>\<open>.\<close>: every character but the line feed\<close>
  | NoneOf "char list"     \<comment> \<open>\<^verbatim>\<open>[^...]\<close>\<close>
  | OneOf "char list"      \<comment> \<open>\<^verbatim>\<open>[...]\<close>\<close>

fun cls_match :: "cls \<Rightarrow> char \<Rightarrow> bool" where
  "cls_match AnyChar x = (x \<noteq> CHR 0x0A)"
| "cls_match (NoneOf cs) x = (x \<notin> set cs)"
| "cls_match (OneOf cs) x = (x \<in> set cs)"

datatype node =
    Lit string             \<comment> \<open>a run of literal characters\<close>
  | One cls                \<comment> \<open>one character of a class\<close>
  | Star cls               \<comment> \<open>\<^verbatim>\<open>c*\<close>, greedy\<close>
  | StarLazy cls           \<comment> \<open>\<^verbatim>\<open>c*?\<close>, lazy\<close>
  | PlusLazy cls           \<comment> \<open>\<^verbatim>\<open>c+?\<close>, lazy\<close>
  | GroupOpen              \<comment> \<open>\<^verbatim>\<open>(\<close> of capture group 1\<close>
  | GroupClose             \<comment> \<open>\<^verbatim>\<open>)\<close> of capture group 1\<close>

type_synonym regexp = "node list"

text \<open>
  What a match in progress has read: the number of characters consumed, the text of
  group 1 while the group is open, and the text of group 1 once it is closed.
\<close>

record match =
  consumed :: nat
  opened :: "string option"
  group1 :: string

definition start_match :: match where
  "start_match = \<lparr>consumed = 0, opened = None, group1 = []\<rparr>"

definition consume :: "string \<Rightarrow> match \<Rightarrow> match" where
  "consume w m =
     m\<lparr>consumed := consumed m + length w,
       opened := map_option (\<lambda>g. g @ w) (opened m)\<rparr>"

definition open_group :: "match \<Rightarrow> match" where
  "open_group m = m\<lparr>opened := Some []\<rparr>"

definition close_group :: "match \<Rightarrow> match" where
  "close_group m =
     (case opened m of None \<Rightarrow> m | Some g \<Rightarrow> m\<lparr>opened := None, group1 := g\<rparr>)"

text \<open>
  The backtracking search for a match of the pattern at the head of the text. A greedy
  star first tries one more character and falls back to the rest of the pattern; a lazy
  one first tries the rest of the pattern and falls back to one more character.
\<close>

fun bt :: "regexp \<Rightarrow> string \<Rightarrow> match \<Rightarrow> match option" where
  "bt [] s m = Some m"
| "bt (Lit l # r) s m =
     (if take (length l) s = l then bt r (drop (length l) s) (consume l m) else None)"
| "bt (One c # r) [] m = None"
| "bt (One c # r) (x # s) m =
     (if cls_match c x then bt r s (consume [x] m) else None)"
| "bt (Star c # r) [] m = bt r [] m"
| "bt (Star c # r) (x # s) m =
     (if cls_match c x
      then (case bt (Star c # r) s (consume [x] m) of
              Some m' \<Rightarrow> Some m'
            | None \<Rightarrow> bt r (x # s) m)
      else bt r (x # s) m)"
| "bt (StarLazy c # r) [] m = bt r [] m"
| "bt (StarLazy c # r) (x # s) m =
     (case bt r (x # s) m of
        Some m' \<Rightarrow> Some m'
      | None \<Rightarrow> if cls_match c x then bt (StarLazy c # r) s (consume [x] m) else None)"
| "bt (PlusLazy c # r) [] m = None"
| "bt (PlusLazy c # r) (x # s) m =
     (if cls_match c x then bt (StarLazy c # r) s (consume [x] m) else None)"
| "bt (GroupOpen # r) s m = bt r s (open_group m)"
| "bt (GroupClose # r) s m = bt r s (close_group m)"

text \<open>The leftmost match: the first position of the text at which the pattern matches.\<close>

fun search :: "regexp \<Rightarrow> string \<Rightarrow> match option" where
  "search re [] = bt re [] start_match"
| "search re (x # s) =
     (case bt re (x # s) start_match of Some m \<Rightarrow> Some m | None \<Rightarrow> search re s)"

text \<open>\<^verbatim>\<open>re.Match(b)\<close>, and \<^verbatim>\<open>re.Find(b) != nil\<close>: the pattern matches somewhere.\<close>

definition Match :: "regexp \<Rightarrow> string \<Rightarrow> bool" where
  "Match re s = (search re s \<noteq> None)"

text \<open>
  \<^verbatim>\<open>re.FindAllStringSubmatch(s, -1)\<close>, of which both callers read element 1 only, the
  text of group 1: the successive leftmost matches, each search starting where the
  previous match ended. The counter is the number of characters of the last match that
  are still to be passed. Every pattern used with it holds a literal, so no match is
  empty, and Go's rules for empty matches are not needed.
\<close>

fun FindAllSubmatch1 :: "regexp \<Rightarrow> string \<Rightarrow> nat \<Rightarrow> string list" where
  "FindAllSubmatch1 re [] k = []"
| "FindAllSubmatch1 re (x # s) k =
     (if 0 < k then FindAllSubmatch1 re s (k - 1)
      else (case bt re (x # s) start_match of
              None \<Rightarrow> FindAllSubmatch1 re s 0
            | Some m \<Rightarrow> group1 m # FindAllSubmatch1 re s (consumed m - 1)))"

definition FindAllStringSubmatch1 :: "regexp \<Rightarrow> string \<Rightarrow> string list" where
  "FindAllStringSubmatch1 re s = FindAllSubmatch1 re s 0"

definition pageStartRegex :: regexp where
  "pageStartRegex = [Star AnyChar, Lit ''<page>'', Star AnyChar]"

definition pageEndRegex :: regexp where
  "pageEndRegex = [Star AnyChar, Lit ''</page>'', Star AnyChar]"

definition redirectRegex :: regexp where
  "redirectRegex =
     [Lit ''#REDIRECT'', One (OneOf [CHR '' '', CHR 0x09]), StarLazy AnyChar,
      Lit ''[['', StarLazy AnyChar, Lit '']]'']"

definition linkRegex :: regexp where
  "linkRegex = [Lit ''[['', GroupOpen, PlusLazy (NoneOf ''|''), GroupClose, Lit '']]'']"

definition categoryRegex :: regexp where
  "categoryRegex =
     [Lit ''[[Category:'', GroupOpen, PlusLazy AnyChar, GroupClose, Lit '']]'']"

text \<open>\<^verbatim>\<open>strings.Trim(s, cutset)\<close>: the leading and trailing characters of the cutset removed.\<close>

definition Trim :: "string \<Rightarrow> string \<Rightarrow> string" where
  "Trim s cutset =
     rev (dropWhile (\<lambda>x. x \<in> set cutset) (rev (dropWhile (\<lambda>x. x \<in> set cutset) s)))"

section \<open>The data model\<close>

text \<open>
  Modelled from the spec: the types \<^verbatim>\<open>Page\<close> and \<^verbatim>\<open>Revision\<close> are declared in a
  file of the package that is not among the sources. The spec gives a Page a Title, a
  Revision with its Text, the ordered Links and the ordered Categories.
\<close>

record Revision =
  Text :: string

record Page =
  Title :: string
  Revision :: Revision
  Links :: "string list"
  Categories :: "string list"

section \<open>The stages of the pipeline\<close>

text \<open>
  Each stage is a goroutine that reads one channel to its end and writes another; every
  channel is unbuffered and has one writer and one reader. A stage is modelled as the
  function from the sequence it receives to the sequence it sends.
\<close>

subsection \<open>GetChunks\<close>

text \<open>
  \<^verbatim>\<open>bufio.Scanner\<close> over the reader, with the default line splitting. Its documentation:
  scanning stops unrecoverably at end of input, at the first I/O error, or at a token too
  large for the buffer; \<^verbatim>\<open>Scan\<close> then returns false, and \<^verbatim>\<open>Err\<close> returns the error,
  or nil when the input just ended. The state is the lines that \<^verbatim>\<open>Scan\<close> will still
  deliver, the current token, and the error that ends the scan, if any.

  \<^verbatim>\<open>Bytes\<close> returns a slice of the scanner's buffer, which a later \<^verbatim>\<open>Scan\<close> may
  overwrite while the next stage still reads it; the model sends each line by value, as
  the line was when it was scanned.
\<close>

record scanner =
  pending :: "string list"
  token :: string
  failure :: "string option"

definition NewScanner :: "string list \<Rightarrow> string option \<Rightarrow> scanner" where
  "NewScanner ls e = \<lparr>pending = ls, token = [], failure = e\<rparr>"

definition Scan :: "scanner \<Rightarrow> bool \<times> scanner" where
  "Scan sc =
     (case pending sc of
        [] \<Rightarrow> (False, sc\<lparr>token := []\<rparr>)
      | l # ls \<Rightarrow> (True, sc\<lparr>pending := ls, token := l\<rparr>))"

definition Bytes :: "scanner \<Rightarrow> string" where
  "Bytes sc = token sc"

definition Err :: "scanner \<Rightarrow> string option" where
  "Err sc = failure sc"

text \<open>
  The loop of \<^verbatim>\<open>GetChunks\<close>, with the log and the chunks sent so far. It returns when
  \<^verbatim>\<open>eof\<close> is set, and then closes the channel. The first argument bounds the number of
  iterations: \<open>None\<close> says that the loop is still running after that many.
\<close>

fun GetChunks_loop ::
  "nat \<Rightarrow> scanner \<Rightarrow> string list \<Rightarrow> string list \<Rightarrow> (string list \<times> string list) option" where
  "GetChunks_loop 0 sc lg chunks = None"
| "GetChunks_loop (Suc n) sc lg chunks =
     (case Scan sc of
        (True, sc') \<Rightarrow> GetChunks_loop n sc' lg (chunks @ [Bytes sc'])
      | (False, sc') \<Rightarrow>
          (case Err sc' of
             Some err \<Rightarrow> GetChunks_loop n sc' (lg @ [err @ '' skipping line'']) chunks
           | None \<Rightarrow> Some (lg, chunks)))"

definition GetChunks :: "nat \<Rightarrow> scanner \<Rightarrow> (string list \<times> string list) option" where
  "GetChunks n sc = GetChunks_loop n sc [] []"

subsection \<open>GetRawPages\<close>

text \<open>
  One iteration of the loop on a chunk: the new \<^verbatim>\<open>page\<close> and \<^verbatim>\<open>inPage\<close>, and the
  block sent, if one is.
\<close>

definition GetRawPages_step ::
  "string \<Rightarrow> string \<times> bool \<Rightarrow> (string \<times> bool) \<times> string option" where
  "GetRawPages_step chunk st =
     (let (page, inPage) = st in
      if Match pageStartRegex chunk then ((page, True), None)
      else if Match pageEndRegex chunk then
        (if inPage then ((''<page>'', False), Some (page @ ''</page>''))
         else ((page, False), None))
      else
        (if inPage then ((page @ chunk, inPage), None)
         else ((page, inPage), None)))"

text \<open>The loop: when the channel of chunks is closed, the output is closed and the
  block in progress is left behind.\<close>

fun GetRawPages_loop :: "string list \<Rightarrow> string \<times> bool \<Rightarrow> string list" where
  "GetRawPages_loop [] st = []"
| "GetRawPages_loop (chunk # chunks) st =
     (case GetRawPages_step chunk st of
        (st', None) \<Rightarrow> GetRawPages_loop chunks st'
      | (st', Some block) \<Rightarrow> block # GetRawPages_loop chunks st')"

definition GetRawPages :: "string list \<Rightarrow> string list" where
  "GetRawPages chunks = GetRawPages_loop chunks (''<page>'', False)"

subsection \<open>FilterRedirects\<close>

fun FilterRedirects :: "string list \<Rightarrow> string list" where
  "FilterRedirects [] = []"
| "FilterRedirects (rawPage # rawPages) =
     (if \<not> Match redirectRegex rawPage then rawPage # FilterRedirects rawPages
      else FilterRedirects rawPages)"

subsection \<open>GetPages\<close>

text \<open>
  \<^verbatim>\<open>xml.Unmarshal\<close> into a fresh Page is a parameter: \<open>None\<close> when it returns an
  error, the Page it filled otherwise.
\<close>

fun GetPages :: "(string \<Rightarrow> Page option) \<Rightarrow> string list \<Rightarrow> Page list" where
  "GetPages unmarshal [] = []"
| "GetPages unmarshal (rawPage # rawPages) =
     (case unmarshal rawPage of
        None \<Rightarrow> GetPages unmarshal rawPages
      | Some pageStruct \<Rightarrow> pageStruct # GetPages unmarshal rawPages)"

subsection \<open>GetLinks and GetCategories\<close>

definition GetLinks_page :: "Page \<Rightarrow> Page" where
  "GetLinks_page page =
     page\<lparr>Links := Links page @ FindAllStringSubmatch1 linkRegex (Text (Revision page))\<rparr>"

definition GetLinks :: "Page list \<Rightarrow> Page list" where
  "GetLinks pages = map GetLinks_page pages"

definition GetCategories_page :: "Page \<Rightarrow> Page" where
  "GetCategories_page page =
     page\<lparr>Categories :=
       map (\<lambda>rawCat. Trim rawCat [CHR '' '', CHR 0x09, CHR ''|''])
         (FindAllStringSubmatch1 categoryRegex (Text (Revision page)))\<rparr>"

definition GetCategories :: "Page list \<Rightarrow> Page list" where
  "GetCategories pages = map GetCategories_page pages"

subsection \<open>Parse and CategorizedParse\<close>

text \<open>The stages after \<^verbatim>\<open>GetChunks\<close>, on the lines it sends.\<close>

definition Parse_chunks :: "(string \<Rightarrow> Page option) \<Rightarrow> string list \<Rightarrow> Page list" where
  "Parse_chunks unmarshal chunks =
     GetLinks (GetPages unmarshal (FilterRedirects (GetRawPages chunks)))"

definition CategorizedParse_chunks ::
  "(string \<Rightarrow> Page option) \<Rightarrow> string list \<Rightarrow> Page list" where
  "CategorizedParse_chunks unmarshal chunks = GetCategories (Parse_chunks unmarshal chunks)"




section \<open>What the patterns accept\<close>

text \<open>
  The words a pattern accepts, stated without the search: a literal is itself, a class is
  one of its characters, a star any run of them. \<open>matches_head\<close> says that a prefix of
  the text is accepted, \<open>matches_within\<close> that some part of it is.
\<close>

fun accepts :: "regexp \<Rightarrow> string \<Rightarrow> bool" where
  "accepts [] w = (w = [])"
| "accepts (Lit l # r) w = (\<exists>v. w = l @ v \<and> accepts r v)"
| "accepts (One c # r) w = (\<exists>x v. w = x # v \<and> cls_match c x \<and> accepts r v)"
| "accepts (Star c # r) w = (\<exists>u v. w = u @ v \<and> list_all (cls_match c) u \<and> accepts r v)"
| "accepts (StarLazy c # r) w =
     (\<exists>u v. w = u @ v \<and> list_all (cls_match c) u \<and> accepts r v)"
| "accepts (PlusLazy c # r) w =
     (\<exists>x u v. w = x # u @ v \<and> cls_match c x \<and> list_all (cls_match c) u \<and> accepts r v)"
| "accepts (GroupOpen # r) w = accepts r w"
| "accepts (GroupClose # r) w = accepts r w"

definition matches_head :: "regexp \<Rightarrow> string \<Rightarrow> bool" where
  "matches_head re s = (\<exists>w t. s = w @ t \<and> accepts re w)"

definition matches_within :: "regexp \<Rightarrow> string \<Rightarrow> bool" where
  "matches_within re s = (\<exists>p w t. s = p @ w @ t \<and> accepts re w)"



section \<open>The references of a text\<close>

text \<open>
  The references that the link and the category pattern find, stated without the search.
  Both patterns are an opening, a target of one or more characters of a class taken as
  short as possible, and \<^verbatim>\<open>]]\<close>. A text begins with a reference when it is the
  opening, a target and \<^verbatim>\<open>]]\<close>, where the target is not empty, all its characters are
  of the class, and no \<^verbatim>\<open>]]\<close> begins in it after its first character: the target ends
  before the first \<^verbatim>\<open>]]\<close> that can close it.
\<close>

definition reference_at :: "string \<Rightarrow> cls \<Rightarrow> string \<Rightarrow> string \<Rightarrow> string \<Rightarrow> bool" where
  "reference_at pre c s t rest =
     (s = pre @ t @ '']]'' @ rest \<and> t \<noteq> [] \<and> list_all (cls_match c) t \<and>
      \<not> sublist '']]'' (tl t @ '']''))"

text \<open>
  The references of a text, from left to right: where the text begins with a reference,
  its target is the next one and the scan goes on behind its \<^verbatim>\<open>]]\<close>; where it does
  not, the scan goes on one character further.
\<close>

inductive references_of :: "string \<Rightarrow> cls \<Rightarrow> string \<Rightarrow> string list \<Rightarrow> bool"
  for pre :: string and c :: cls where
  end_of_text: "references_of pre c [] []"
| reference:
    "reference_at pre c s t rest \<Longrightarrow> references_of pre c rest ts \<Longrightarrow>
     references_of pre c s (t # ts)"
| no_reference:
    "\<not> (\<exists>t rest. reference_at pre c (x # s) t rest) \<Longrightarrow> references_of pre c s ts \<Longrightarrow>
     references_of pre c (x # s) ts"

text \<open>The pattern with this opening and this class.\<close>

definition bracketed :: "string \<Rightarrow> cls \<Rightarrow> regexp" where
  "bracketed pre c = [Lit pre, GroupOpen, PlusLazy c, GroupClose, Lit '']]'']"

section \<open>Texts and dumps of a known shape\<close>

text \<open>
  A body text as a sequence of plain stretches and bracketed references
  \<^verbatim>\<open>[[body]]\<close>. For the links, a plain stretch has no opening bracket and a reference
  body no closing bracket; a body with a pipe has no opening bracket either, a body
  without one is not empty and is the target of the reference.
\<close>

datatype seg = Plain string | Ref string

fun render :: "seg \<Rightarrow> string" where
  "render (Plain s) = s"
| "render (Ref b) = ''[['' @ b @ '']]''"

definition render_text :: "seg list \<Rightarrow> string" where
  "render_text segs = concat (map render segs)"

fun link_seg :: "seg \<Rightarrow> bool" where
  "link_seg (Plain s) = (CHR ''['' \<notin> set s)"
| "link_seg (Ref b) =
     (CHR '']'' \<notin> set b \<and> (if CHR ''|'' \<in> set b then CHR ''['' \<notin> set b else b \<noteq> []))"

fun link_targets :: "seg \<Rightarrow> string list" where
  "link_targets (Plain s) = []"
| "link_targets (Ref b) = (if CHR ''|'' \<in> set b then [] else [b])"

text \<open>
  For the categories, the body of a category reference is \<^verbatim>\<open>Category:\<close> and a target
  that is not empty and has no closing bracket and no line feed; the body of any other
  reference has no opening bracket.
\<close>

fun category_seg :: "seg \<Rightarrow> bool" where
  "category_seg (Plain s) = (CHR ''['' \<notin> set s)"
| "category_seg (Ref b) =
     (if take 9 b = ''Category:''
      then drop 9 b \<noteq> [] \<and> CHR '']'' \<notin> set (drop 9 b) \<and> CHR 0x0A \<notin> set (drop 9 b)
      else CHR ''['' \<notin> set b)"

fun category_targets :: "seg \<Rightarrow> string list" where
  "category_targets (Plain s) = []"
| "category_targets (Ref b) = (if take 9 b = ''Category:'' then [drop 9 b] else [])"





text \<open>A decoder to run the pipeline on: it refuses a block with a bare ampersand and
  takes the whole block for the text otherwise.\<close>

definition sample_unmarshal :: "string \<Rightarrow> Page option" where
  "sample_unmarshal raw =
     (if CHR ''&'' \<in> set raw then None
      else Some \<lparr>Title = [], Revision = \<lparr>Text = raw\<rparr>, Links = [], Categories = []\<rparr>)"

definition sample_page :: "string \<Rightarrow> Page" where
  "sample_page txt = \<lparr>Title = ''T'', Revision = \<lparr>Text = txt\<rparr>, Links = [], Categories = []\<rparr>"

section \<open>The search finds a match exactly when the pattern accepts\<close>

lemma matches_head_Nil: "matches_head [] s"
  by (simp add: matches_head_def)

lemma matches_head_Lit:
  "matches_head (Lit l # r) s =
     (take (length l) s = l \<and> matches_head r (drop (length l) s))"
  unfolding matches_head_def
proof
  assume "\<exists>w t. s = w @ t \<and> accepts (Lit l # r) w"
  then obtain v t where "s = l @ v @ t" "accepts r v" by auto
  then show "take (length l) s = l \<and> (\<exists>w t. drop (length l) s = w @ t \<and> accepts r w)"
    by auto
next
  assume a: "take (length l) s = l \<and> (\<exists>w t. drop (length l) s = w @ t \<and> accepts r w)"
  then obtain w t where wt: "drop (length l) s = w @ t" "accepts r w" by auto
  from a have "s = l @ drop (length l) s" by (metis append_take_drop_id)
  with wt have "s = (l @ w) @ t \<and> accepts (Lit l # r) (l @ w)" by simp
  then show "\<exists>w t. s = w @ t \<and> accepts (Lit l # r) w" by blast
qed

lemma matches_head_One_Nil: "\<not> matches_head (One c # r) []"
  by (simp add: matches_head_def)

lemma matches_head_One_Cons:
  "matches_head (One c # r) (x # s) = (cls_match c x \<and> matches_head r s)"
  unfolding matches_head_def by (auto simp: Cons_eq_append_conv)

lemma matches_head_Star_Nil: "matches_head (Star c # r) [] = matches_head r []"
  by (simp add: matches_head_def)

lemma matches_head_Star_Cons:
  "matches_head (Star c # r) (x # s) =
     ((cls_match c x \<and> matches_head (Star c # r) s) \<or> matches_head r (x # s))"
  unfolding matches_head_def
proof
  assume "\<exists>w t. x # s = w @ t \<and> accepts (Star c # r) w"
  then obtain u v t where h: "x # s = (u @ v) @ t" "list_all (cls_match c) u" "accepts r v"
    by auto
  show "cls_match c x \<and> (\<exists>w t. s = w @ t \<and> accepts (Star c # r) w) \<or>
        (\<exists>w t. x # s = w @ t \<and> accepts r w)"
  proof (cases u)
    case Nil
    with h show ?thesis by auto
  next
    case (Cons y u')
    with h have "cls_match c x" "s = (u' @ v) @ t" "list_all (cls_match c) u'" by auto
    with h(3) have "cls_match c x \<and> s = (u' @ v) @ t \<and> accepts (Star c # r) (u' @ v)"
      by auto
    then show ?thesis by blast
  qed
next
  assume "cls_match c x \<and> (\<exists>w t. s = w @ t \<and> accepts (Star c # r) w) \<or>
          (\<exists>w t. x # s = w @ t \<and> accepts r w)"
  then show "\<exists>w t. x # s = w @ t \<and> accepts (Star c # r) w"
  proof
    assume "cls_match c x \<and> (\<exists>w t. s = w @ t \<and> accepts (Star c # r) w)"
    then obtain u v t where
      "cls_match c x" "s = (u @ v) @ t" "list_all (cls_match c) u" "accepts r v"
      by auto
    then have "x # s = ((x # u) @ v) @ t \<and> list_all (cls_match c) (x # u) \<and> accepts r v"
      by simp
    then have "x # s = ((x # u) @ v) @ t \<and> accepts (Star c # r) ((x # u) @ v)"
      using accepts.simps(4) by blast
    then show ?thesis by blast
  next
    assume "\<exists>w t. x # s = w @ t \<and> accepts r w"
    then obtain w t where "x # s = w @ t" "accepts r w" by auto
    moreover have "accepts r w \<Longrightarrow> accepts (Star c # r) w"
      by (auto intro: exI[of _ "[]"])
    ultimately have "x # s = w @ t \<and> accepts (Star c # r) w" by simp
    then show ?thesis by blast
  qed
qed

lemma matches_head_StarLazy: "matches_head (StarLazy c # r) s = matches_head (Star c # r) s"
  by (simp add: matches_head_def)

lemma matches_head_PlusLazy_Nil: "\<not> matches_head (PlusLazy c # r) []"
  by (simp add: matches_head_def)

lemma matches_head_PlusLazy_Cons:
  "matches_head (PlusLazy c # r) (x # s) = (cls_match c x \<and> matches_head (StarLazy c # r) s)"
  unfolding matches_head_def by (auto simp: Cons_eq_append_conv)

lemma matches_head_Group:
  "matches_head (GroupOpen # r) s = matches_head r s"
  "matches_head (GroupClose # r) s = matches_head r s"
  by (simp_all add: matches_head_def)

lemma bt_matches_head: "(bt re s m \<noteq> None) = matches_head re s"
proof (induction re s m rule: bt.induct)
  case (1 s m)
  show ?case by (simp add: matches_head_Nil)
next
  case (2 l r s m)
  then show ?case by (simp add: matches_head_Lit)
next
  case (3 c r m)
  show ?case by (simp add: matches_head_One_Nil)
next
  case (4 c r x s m)
  then show ?case by (simp add: matches_head_One_Cons)
next
  case (5 c r m)
  then show ?case by (simp add: matches_head_Star_Nil)
next
  case (6 c r x s m)
  then show ?case by (auto simp: matches_head_Star_Cons split: option.splits)
next
  case (7 c r m)
  then show ?case by (simp add: matches_head_StarLazy matches_head_Star_Nil)
next
  case (8 c r x s m)
  then show ?case
    by (auto simp: matches_head_StarLazy matches_head_Star_Cons split: option.splits)
next
  case (9 c r m)
  show ?case by (simp add: matches_head_PlusLazy_Nil)
next
  case (10 c r x s m)
  then show ?case by (simp add: matches_head_PlusLazy_Cons)
next
  case (11 r s m)
  then show ?case by (simp add: matches_head_Group)
next
  case (12 r s m)
  then show ?case by (simp add: matches_head_Group)
qed

lemma search_matches_within: "(search re s \<noteq> None) = matches_within re s"
proof (induction s)
  case Nil
  show ?case using bt_matches_head [of re "[]" start_match]
    by (simp add: matches_within_def matches_head_def)
next
  case (Cons x s)
  have mw: "matches_within re (x # s) = (matches_head re (x # s) \<or> matches_within re s)"
    unfolding matches_within_def matches_head_def
    by (auto simp: Cons_eq_append_conv) (metis append_Cons)+
  have h: "(bt re (x # s) start_match \<noteq> None) = matches_head re (x # s)"
    by (rule bt_matches_head)
  show ?case
  proof (cases "bt re (x # s) start_match")
    case None
    then have "search re (x # s) = search re s" by simp
    moreover from None h have "\<not> matches_head re (x # s)" by simp
    ultimately show ?thesis using mw Cons.IH by metis
  next
    case (Some m)
    with h mw show ?thesis by simp
  qed
qed

lemma Match_matches_within: "Match re s = matches_within re s"
  unfolding Match_def by (rule search_matches_within)

lemma accepts_page_marker:
  "accepts [Star AnyChar, Lit l, Star AnyChar] w =
     (\<exists>u v. w = u @ l @ v \<and> list_all (cls_match AnyChar) u \<and> list_all (cls_match AnyChar) v)"
  by auto

lemma Match_page_marker: "Match [Star AnyChar, Lit l, Star AnyChar] s = sublist l s"
proof
  assume "Match [Star AnyChar, Lit l, Star AnyChar] s"
  then obtain p w t u v where "s = p @ w @ t" "w = u @ l @ v"
    unfolding Match_matches_within matches_within_def accepts_page_marker by blast
  then have "s = (p @ u) @ l @ (v @ t)" by simp
  then show "sublist l s" unfolding sublist_def by blast
next
  assume "sublist l s"
  then obtain p t where "s = p @ l @ t" unfolding sublist_def by blast
  then have "s = p @ ([] @ l @ []) @ t \<and> list_all (cls_match AnyChar) []" by simp
  then show "Match [Star AnyChar, Lit l, Star AnyChar] s"
    unfolding Match_matches_within matches_within_def accepts_page_marker by blast
qed

lemma Match_pageStart: "Match pageStartRegex chunk = sublist ''<page>'' chunk"
  unfolding pageStartRegex_def by (rule Match_page_marker)

lemma Match_pageEnd: "Match pageEndRegex chunk = sublist ''</page>'' chunk"
  unfolding pageEndRegex_def by (rule Match_page_marker)


section \<open>Running the definitions on given inputs\<close>

lemmas match_eval =
  Match_def start_match_def consume_def open_group_def close_group_def
  pageStartRegex_def pageEndRegex_def redirectRegex_def linkRegex_def categoryRegex_def

lemmas stage_eval =
  GetRawPages_def GetRawPages_step_def GetLinks_def GetLinks_page_def GetCategories_def
  GetCategories_page_def FindAllStringSubmatch1_def Trim_def Parse_chunks_def
  CategorizedParse_chunks_def sample_unmarshal_def sample_page_def

section \<open>GetChunks\<close>

lemma GetChunks_loop_failure:
  "failure sc = Some e \<Longrightarrow> GetChunks_loop n sc lg chunks = None"
proof (induction n arbitrary: sc lg chunks)
  case 0
  show ?case by simp
next
  case (Suc n)
  show ?case
  proof (cases "pending sc")
    case Nil
    have "failure (sc\<lparr>token := []\<rparr>) = Some e" using Suc.prems by simp
    then have "GetChunks_loop n (sc\<lparr>token := []\<rparr>) (lg @ [e @ '' skipping line'']) chunks = None"
      by (rule Suc.IH)
    with Nil Suc.prems show ?thesis by (simp add: Scan_def Err_def)
  next
    case (Cons l ls)
    have "failure (sc\<lparr>pending := ls, token := l\<rparr>) = Some e" using Suc.prems by simp
    then have "GetChunks_loop n (sc\<lparr>pending := ls, token := l\<rparr>) lg (chunks @ [l]) = None"
      by (rule Suc.IH)
    with Cons show ?thesis by (simp add: Scan_def Bytes_def)
  qed
qed





text \<open>
  C2. After a read failure the scanner has stopped for good: \<^verbatim>\<open>Scan\<close> keeps returning
  false and \<^verbatim>\<open>Err\<close> the same error, so the loop of \<^verbatim>\<open>GetChunks\<close> logs again and
  again and is still running after any number of iterations; it never closes its channel.
\<close>

theorem GetChunks_read_failure_never_returns:
  "GetChunks n (NewScanner ls (Some e)) = None"
  by (simp add: GetChunks_def NewScanner_def GetChunks_loop_failure)

section \<open>GetRawPages\<close>





text \<open>
  C6, as the code has it. A line with the start marker that arrives inside a page is not
  added to the block: the block in progress stays as it is, nothing is sent, and the
  assembler stays inside the page. An ordinary line is added.
\<close>

theorem start_marker_inside_page_dropped:
  "Match pageStartRegex chunk \<Longrightarrow>
   GetRawPages_step chunk (page, True) = ((page, True), None) \<and>
   GetRawPages_loop (chunk # chunks) (page, True) = GetRawPages_loop chunks (page, True)"
  by (simp add: GetRawPages_step_def)

theorem start_marker_inside_page_dropped_witness:
  "Match pageStartRegex ''  <page>'' \<and>
   GetRawPages_step ''  <page>'' (''<page>a'', True) = ((''<page>a'', True), None) \<and>
   GetRawPages_loop [''  <page>'', ''b'', ''</page>''] (''<page>a'', True) =
     GetRawPages_loop [''b'', ''</page>''] (''<page>a'', True)"
proof -
  have m: "Match pageStartRegex ''  <page>''" by (simp add: match_eval)
  from start_marker_inside_page_dropped [OF m] m show ?thesis by simp
qed

theorem start_marker_inside_page_counterexample:
  "GetRawPages_step ''b'' (''<page>a'', True) = ((''<page>a'' @ ''b'', True), None) \<and>
   GetRawPages_step ''<page>'' (''<page>a'', True) \<noteq> ((''<page>a'' @ ''<page>'', True), None) \<and>
   GetRawPages [''<page>'', ''a'', ''<page>'', ''b'', ''</page>''] = [''<page>ab</page>'']"
  by (simp add: match_eval stage_eval)

text \<open>
  C10, as the code has it. A line is a start marker exactly when \<^verbatim>\<open><page>\<close> occurs
  in it, and whatever the state, such a line only sets the assembler inside the page. The
  end pattern matches exactly the lines in which \<^verbatim>\<open></page>\<close> occurs, but it is tried
  second: a line is an end marker when \<^verbatim>\<open></page>\<close> occurs in it and \<^verbatim>\<open><page>\<close>
  does not. Inside a page an end marker closes the block and sends it; outside it sends
  nothing.
\<close>

theorem markers_by_containment:
  "Match pageStartRegex chunk = sublist ''<page>'' chunk \<and>
   Match pageEndRegex chunk = sublist ''</page>'' chunk \<and>
   (sublist ''<page>'' chunk \<longrightarrow>
      GetRawPages_step chunk (page, inPage) = ((page, True), None)) \<and>
   (sublist ''</page>'' chunk \<and> \<not> sublist ''<page>'' chunk \<longrightarrow>
      GetRawPages_step chunk (page, True) = ((''<page>'', False), Some (page @ ''</page>'')) \<and>
      GetRawPages_step chunk (page, False) = ((page, False), None))"
  by (simp add: GetRawPages_step_def Match_pageStart Match_pageEnd)

theorem markers_by_containment_witness:
  "sublist ''</page>'' ''text</page>more'' \<and> \<not> sublist ''<page>'' ''text</page>more'' \<and>
   GetRawPages_step ''text</page>more'' (''<page>a'', True) =
     ((''<page>'', False), Some ''<page>a</page>'') \<and>
   sublist ''<page>'' ''text<page>more'' \<and>
   GetRawPages_step ''text<page>more'' (''<page>'', False) = ((''<page>'', True), None)"
proof -
  have "Match pageEndRegex ''text</page>more''" "\<not> Match pageStartRegex ''text</page>more''"
    "Match pageStartRegex ''text<page>more''"
    by (simp_all add: match_eval)
  with markers_by_containment [of "''text</page>more''" "''<page>a''" True]
    markers_by_containment [of "''text<page>more''" "''<page>''" False]
  show ?thesis by simp
qed

theorem markers_by_containment_counterexample:
  "sublist ''</page>'' ''<page>x</page>'' \<and>
   GetRawPages_step ''<page>x</page>'' (''<page>a'', True) = ((''<page>a'', True), None) \<and>
   GetRawPages [''<page>'', ''a'', ''<page>x</page>'', ''b'', ''</page>''] = [''<page>ab</page>'']"
proof -
  have "Match pageEndRegex ''<page>x</page>''" by (simp add: match_eval)
  then have "sublist ''</page>'' ''<page>x</page>''" by (simp only: Match_pageEnd)
  then show ?thesis by (simp add: match_eval stage_eval)
qed

section \<open>GetPages\<close>

lemma GetPages_append:
  "GetPages unmarshal (xs @ ys) = GetPages unmarshal xs @ GetPages unmarshal ys"
  by (induction xs) (auto split: option.splits)

lemma GetPages_decoded:
  "list_all (\<lambda>a. unmarshal a \<noteq> None) xs \<Longrightarrow>
   GetPages unmarshal xs = map (\<lambda>a. the (unmarshal a)) xs"
  by (induction xs) auto

text \<open>
  C8. A block that \<^verbatim>\<open>xml.Unmarshal\<close> refuses is dropped: nothing is sent for it, and
  the stage has no other output than the pages. One such block among blocks that decode
  leaves the pages of the others, in their order, one fewer than the blocks.
\<close>

theorem malformed_block_dropped:
  assumes "unmarshal b = None" and "list_all (\<lambda>a. unmarshal a \<noteq> None) (xs @ ys)"
  shows "GetPages unmarshal [b] = [] \<and>
         GetPages unmarshal (xs @ b # ys) = map (\<lambda>a. the (unmarshal a)) (xs @ ys) \<and>
         Suc (length (GetPages unmarshal (xs @ b # ys))) = length (xs @ b # ys)"
proof -
  have "GetPages unmarshal (xs @ b # ys) = GetPages unmarshal xs @ GetPages unmarshal ys"
    using assms(1) by (simp add: GetPages_append)
  also have "\<dots> = GetPages unmarshal (xs @ ys)" by (simp add: GetPages_append)
  also have "\<dots> = map (\<lambda>a. the (unmarshal a)) (xs @ ys)"
    using assms(2) by (rule GetPages_decoded)
  finally show ?thesis using assms(1) by simp
qed

theorem malformed_block_dropped_witness:
  "sample_unmarshal ''<page>&</page>'' = None \<and>
   GetPages sample_unmarshal [''<page>a</page>'', ''<page>&</page>'', ''<page>b</page>''] =
     [the (sample_unmarshal ''<page>a</page>''), the (sample_unmarshal ''<page>b</page>'')]"
proof -
  have bad: "sample_unmarshal ''<page>&</page>'' = None" by (simp add: sample_unmarshal_def)
  have ok: "list_all (\<lambda>a. sample_unmarshal a \<noteq> None) ([''<page>a</page>''] @ [''<page>b</page>''])"
    by (simp add: sample_unmarshal_def)
  from malformed_block_dropped [OF bad ok] bad show ?thesis by simp
qed

section \<open>GetLinks and GetCategories\<close>

text \<open>
  C3, as the code has it. \<^verbatim>\<open>GetCategories\<close> assigns the list it computes, so a second
  run leaves the page as the first did. \<^verbatim>\<open>GetLinks\<close> appends to the list the page has,
  so a second run appends the matches of the text once more: the links are those of the
  first run exactly when the text has no match. Each of the two changes its own list and
  no other field.
\<close>

theorem extraction_rerun:
  "GetCategories_page (GetCategories_page page) = GetCategories_page page \<and>
   Links (GetLinks_page (GetLinks_page page)) =
     Links (GetLinks_page page) @ FindAllStringSubmatch1 linkRegex (Text (Revision page)) \<and>
   (Links (GetLinks_page (GetLinks_page page)) = Links (GetLinks_page page)) =
     (FindAllStringSubmatch1 linkRegex (Text (Revision page)) = []) \<and>
   Categories (GetCategories_page (GetLinks_page (GetCategories_page (GetLinks_page page)))) =
     Categories (GetCategories_page (GetLinks_page page)) \<and>
   Title (GetLinks_page page) = Title page \<and>
   Revision (GetLinks_page page) = Revision page \<and>
   Categories (GetLinks_page page) = Categories page \<and>
   Title (GetCategories_page page) = Title page \<and>
   Revision (GetCategories_page page) = Revision page \<and>
   Links (GetCategories_page page) = Links page"
  by (simp add: GetCategories_page_def GetLinks_page_def)

theorem extraction_rerun_witness:
  "GetCategories_page (GetCategories_page (sample_page ''[[Category:C]]'')) =
     GetCategories_page (sample_page ''[[Category:C]]'') \<and>
   Categories (GetCategories_page (sample_page ''[[Category:C]]'')) = [''C''] \<and>
   Links (GetLinks_page (GetLinks_page (sample_page ''no link''))) =
     Links (GetLinks_page (sample_page ''no link''))"
proof -
  have "FindAllStringSubmatch1 linkRegex (Text (Revision (sample_page ''no link''))) = []"
    by (simp add: match_eval stage_eval)
  moreover have "Categories (GetCategories_page (sample_page ''[[Category:C]]'')) = [''C'']"
    by (simp add: match_eval stage_eval)
  ultimately show ?thesis
    using extraction_rerun [of "sample_page ''[[Category:C]]''"]
      extraction_rerun [of "sample_page ''no link''"]
    by simp
qed

theorem extraction_rerun_counterexample:
  "Links (GetLinks_page (sample_page ''[[A]]'')) = [''A''] \<and>
   Links (GetLinks_page (GetLinks_page (sample_page ''[[A]]''))) = [''A'', ''A'']"
  by (simp add: match_eval stage_eval)


section \<open>The redirect pattern\<close>








section \<open>Matches of the link and category patterns\<close>

lemma bt_lazy_close:
  "list_all (cls_match c) u \<Longrightarrow> CHR '']'' \<notin> set u \<Longrightarrow>
   bt [StarLazy c, GroupClose, Lit '']]''] (u @ '']]'' @ rest)
      \<lparr>consumed = n, opened = Some g, group1 = g0\<rparr> =
   Some \<lparr>consumed = n + length u + 2, opened = None, group1 = g @ u\<rparr>"
proof (induction u arbitrary: n g)
  case Nil
  show ?case by (simp add: close_group_def consume_def)
next
  case (Cons y u)
  then have "bt [StarLazy c, GroupClose, Lit '']]''] (u @ '']]'' @ rest)
      \<lparr>consumed = Suc n, opened = Some (g @ [y]), group1 = g0\<rparr> =
   Some \<lparr>consumed = Suc n + length u + 2, opened = None, group1 = (g @ [y]) @ u\<rparr>"
    by simp
  with Cons.prems show ?case by (auto simp: close_group_def consume_def)
qed

lemma bt_bracketed:
  assumes "b \<noteq> []" "list_all (cls_match c) b" "CHR '']'' \<notin> set b"
  shows "bt [Lit pre, GroupOpen, PlusLazy c, GroupClose, Lit '']]''] (pre @ b @ '']]'' @ rest)
           start_match =
         Some \<lparr>consumed = length pre + length b + 2, opened = None, group1 = b\<rparr>"
proof -
  from assms(1) obtain y u where b: "b = y # u" by (cases b) auto
  with assms have "list_all (cls_match c) u" "CHR '']'' \<notin> set u" "cls_match c y" by auto
  from bt_lazy_close [OF this(1,2), of rest "Suc (length pre)" "[y]" "[]"] this(3) b
  show ?thesis by (simp add: start_match_def consume_def open_group_def)
qed

lemma bt_lazy_blocked:
  "CHR '']'' \<notin> set u \<Longrightarrow> \<not> cls_match c y \<Longrightarrow> y \<noteq> CHR '']'' \<Longrightarrow>
   bt [StarLazy c, GroupClose, Lit '']]''] (u @ y # rest) m = None"
  by (induction u arbitrary: m) auto

lemma bt_piped:
  assumes "CHR ''|'' \<in> set b" "CHR '']'' \<notin> set b"
  shows "bt linkRegex (''[['' @ b @ rest) m = None"
proof -
  from assms(1) obtain u v where b: "b = u @ CHR ''|'' # v" by (meson split_list)
  show ?thesis
  proof (cases u)
    case Nil
    with b show ?thesis by (simp add: linkRegex_def)
  next
    case (Cons z u')
    with b assms(2) have "CHR '']'' \<notin> set u'" by simp
    then have "\<And>m. bt [StarLazy (NoneOf ''|''), GroupClose, Lit '']]'']
        (u' @ CHR ''|'' # (v @ rest)) m = None"
      by (rule bt_lazy_blocked) simp_all
    with b Cons show ?thesis by (simp add: linkRegex_def)
  qed
qed

lemma bt_linkRegex_head: "x \<noteq> CHR ''['' \<Longrightarrow> bt linkRegex (x # s) m = None"
  by (simp add: linkRegex_def)

lemma bt_linkRegex_second: "x \<noteq> CHR ''['' \<Longrightarrow> bt linkRegex (y # x # s) m = None"
  by (simp add: linkRegex_def)

lemma bt_categoryRegex_head: "x \<noteq> CHR ''['' \<Longrightarrow> bt categoryRegex (x # s) m = None"
  by (simp add: categoryRegex_def)

lemma bt_categoryRegex_second: "x \<noteq> CHR ''['' \<Longrightarrow> bt categoryRegex (y # x # s) m = None"
  by (simp add: categoryRegex_def)

lemma FindAllSubmatch1_skip:
  "FindAllSubmatch1 re (w @ rest) (length w) = FindAllSubmatch1 re rest 0"
  by (induction w) simp_all

lemma FindAllSubmatch1_match:
  "bt re (x # w @ rest) start_match = Some m \<Longrightarrow> consumed m = Suc (length w) \<Longrightarrow>
   FindAllSubmatch1 re (x # w @ rest) 0 = group1 m # FindAllSubmatch1 re rest 0"
  by (simp add: FindAllSubmatch1_skip)

lemma FindAllSubmatch1_pass:
  "list_all (\<lambda>x. \<forall>s. bt re (x # s) start_match = None) w \<Longrightarrow>
   FindAllSubmatch1 re (w @ rest) 0 = FindAllSubmatch1 re rest 0"
  by (induction w) simp_all


lemma no_bracket_pass_link:
  "CHR ''['' \<notin> set w \<Longrightarrow> list_all (\<lambda>x. \<forall>s. bt linkRegex (x # s) start_match = None) w"
  by (induction w) (auto simp: bt_linkRegex_head)

lemma no_bracket_pass_category:
  "CHR ''['' \<notin> set w \<Longrightarrow>
   list_all (\<lambda>x. \<forall>s. bt categoryRegex (x # s) start_match = None) w"
  by (induction w) (auto simp: bt_categoryRegex_head)

lemma FindAll_link_seg:
  assumes "link_seg sg"
  shows "FindAllSubmatch1 linkRegex (render sg @ rest) 0 =
         link_targets sg @ FindAllSubmatch1 linkRegex rest 0"
proof (cases sg)
  case (Plain w)
  with assms have "list_all (\<lambda>x. \<forall>s. bt linkRegex (x # s) start_match = None) w"
    by (simp add: no_bracket_pass_link)
  then have "FindAllSubmatch1 linkRegex (w @ rest) 0 = FindAllSubmatch1 linkRegex rest 0"
    by (rule FindAllSubmatch1_pass)
  with Plain show ?thesis by simp
next
  case (Ref b)
  show ?thesis
  proof (cases "CHR ''|'' \<in> set b")
    case True
    with assms Ref have nb: "CHR '']'' \<notin> set b" "CHR ''['' \<notin> set b" by simp_all
    from True nb have b0: "bt linkRegex (CHR ''['' # CHR ''['' # b @ '']]'' @ rest) start_match = None"
      using bt_piped [of b "'']]'' @ rest" start_match] by simp
    have "CHR ''['' \<notin> set (b @ '']]'')" using nb by simp
    then have "list_all (\<lambda>x. \<forall>s. bt linkRegex (x # s) start_match = None) (b @ '']]'')"
      by (rule no_bracket_pass_link)
    then have pass: "FindAllSubmatch1 linkRegex ((b @ '']]'') @ rest) 0 =
                     FindAllSubmatch1 linkRegex rest 0"
      by (rule FindAllSubmatch1_pass)
    from True obtain y u where yu: "b = y # u" by (cases b) auto
    with nb have "y \<noteq> CHR ''[''" by auto
    then have b1: "bt linkRegex (CHR ''['' # y # u @ '']]'' @ rest) start_match = None"
      by (rule bt_linkRegex_second)
    from b0 b1 pass yu True Ref show ?thesis by simp
  next
    case False
    with assms Ref have ok: "b \<noteq> []" "CHR '']'' \<notin> set b" by simp_all
    from False have "list_all (cls_match (NoneOf ''|'')) b" by (auto simp: list_all_iff)
    with ok(1) have "bt linkRegex (''[['' @ b @ '']]'' @ rest) start_match =
        Some \<lparr>consumed = length ''[['' + length b + 2, opened = None, group1 = b\<rparr>"
      using ok(2) unfolding linkRegex_def by (rule bt_bracketed)
    then have m: "bt linkRegex (CHR ''['' # (CHR ''['' # b @ '']]'') @ rest) start_match =
        Some \<lparr>consumed = Suc (length (CHR ''['' # b @ '']]'')), opened = None, group1 = b\<rparr>"
      by simp
    have "FindAllSubmatch1 linkRegex (CHR ''['' # (CHR ''['' # b @ '']]'') @ rest) 0 =
          group1 \<lparr>consumed = Suc (length (CHR ''['' # b @ '']]'')), opened = None, group1 = b\<rparr> #
          FindAllSubmatch1 linkRegex rest 0"
      using m by (rule FindAllSubmatch1_match) simp
    with False Ref show ?thesis by simp
  qed
qed

lemma FindAll_link_segs:
  "list_all link_seg segs \<Longrightarrow>
   FindAllSubmatch1 linkRegex (render_text segs @ rest) 0 =
     concat (map link_targets segs) @ FindAllSubmatch1 linkRegex rest 0"
  by (induction segs) (simp_all add: render_text_def FindAll_link_seg)

lemma FindAllStringSubmatch1_links:
  "list_all link_seg segs \<Longrightarrow>
   FindAllStringSubmatch1 linkRegex (render_text segs) = concat (map link_targets segs)"
  using FindAll_link_segs [of segs "[]"] by (simp add: FindAllStringSubmatch1_def)

lemma take_prefixed: "take (length (p @ q)) (p @ s) = p @ take (length q) s"
  by simp

lemma not_category_head:
  assumes "take 9 b \<noteq> ''Category:''"
  shows "bt categoryRegex (''[['' @ b @ '']]'' @ rest) m = None"
proof -
  have "take 9 (b @ '']]'' @ rest) \<noteq> ''Category:''"
  proof (cases "9 \<le> length b")
    case True
    with assms show ?thesis by simp
  next
    case False
    then obtain k where k: "9 - length b = Suc k" by (cases "9 - length b") auto
    have "CHR '']'' \<in> set (take 9 (b @ '']]'' @ rest))" by (simp add: k)
    moreover have "CHR '']'' \<notin> set ''Category:''" by simp
    ultimately show ?thesis by metis
  qed
  moreover have "length ''Category:'' = 9" by simp
  ultimately have "take (length ''Category:'') (b @ '']]'' @ rest) \<noteq> ''Category:''"
    by metis
  then have "take (length (''[['' @ ''Category:'')) (''[['' @ b @ '']]'' @ rest) \<noteq>
             ''[['' @ ''Category:''"
    by (simp only: take_prefixed same_append_eq simp_thms)
  then have "bt (Lit (''[['' @ ''Category:'') #
                 [GroupOpen, PlusLazy AnyChar, GroupClose, Lit '']]''])
               (''[['' @ b @ '']]'' @ rest) m = None"
    by (simp only: bt.simps if_False simp_thms)
  then show ?thesis by (simp add: categoryRegex_def)
qed

lemma FindAll_category_seg:
  assumes "category_seg sg"
  shows "FindAllSubmatch1 categoryRegex (render sg @ rest) 0 =
         category_targets sg @ FindAllSubmatch1 categoryRegex rest 0"
proof (cases sg)
  case (Plain w)
  with assms have "list_all (\<lambda>x. \<forall>s. bt categoryRegex (x # s) start_match = None) w"
    by (simp add: no_bracket_pass_category)
  then have "FindAllSubmatch1 categoryRegex (w @ rest) 0 = FindAllSubmatch1 categoryRegex rest 0"
    by (rule FindAllSubmatch1_pass)
  with Plain show ?thesis by simp
next
  case (Ref b)
  show ?thesis
  proof (cases "take 9 b = ''Category:''")
    case False
    with assms Ref have nb: "CHR ''['' \<notin> set b" by simp
    from False have b0: "bt categoryRegex (CHR ''['' # CHR ''['' # b @ '']]'' @ rest) start_match = None"
      using not_category_head [of b rest start_match] by simp
    have "CHR ''['' \<notin> set (b @ '']]'')" using nb by simp
    then have "list_all (\<lambda>x. \<forall>s. bt categoryRegex (x # s) start_match = None) (b @ '']]'')"
      by (rule no_bracket_pass_category)
    then have pass: "FindAllSubmatch1 categoryRegex ((b @ '']]'') @ rest) 0 =
                     FindAllSubmatch1 categoryRegex rest 0"
      by (rule FindAllSubmatch1_pass)
    have "hd (b @ '']]'' @ rest) \<noteq> CHR ''[''" using nb by (cases b) auto
    moreover have "b @ '']]'' @ rest = hd (b @ '']]'' @ rest) # tl (b @ '']]'' @ rest)"
      by (cases b) auto
    ultimately have b1: "bt categoryRegex (CHR ''['' # b @ '']]'' @ rest) start_match = None"
      by (metis bt_categoryRegex_second)
    from b0 b1 pass False Ref show ?thesis by simp
  next
    case True
    define t where "t = drop 9 b"
    from True have b: "b = ''Category:'' @ t" unfolding t_def by (metis append_take_drop_id)
    from assms Ref True have ok: "t \<noteq> []" "CHR '']'' \<notin> set t" "CHR 0x0A \<notin> set t"
      unfolding t_def by simp_all
    from ok(3) have "list_all (cls_match AnyChar) t" by (auto simp: list_all_iff)
    with ok(1) have "bt categoryRegex (''[[Category:'' @ t @ '']]'' @ rest) start_match =
        Some \<lparr>consumed = length ''[[Category:'' + length t + 2, opened = None, group1 = t\<rparr>"
      using ok(2) unfolding categoryRegex_def by (rule bt_bracketed)
    then have m: "bt categoryRegex (CHR ''['' # (CHR ''['' # ''Category:'' @ t @ '']]'') @ rest)
        start_match =
        Some \<lparr>consumed = Suc (length (CHR ''['' # ''Category:'' @ t @ '']]'')), opened = None,
              group1 = t\<rparr>"
      by simp
    have "FindAllSubmatch1 categoryRegex
            (CHR ''['' # (CHR ''['' # ''Category:'' @ t @ '']]'') @ rest) 0 =
          group1 \<lparr>consumed = Suc (length (CHR ''['' # ''Category:'' @ t @ '']]'')),
                  opened = None, group1 = t\<rparr> #
          FindAllSubmatch1 categoryRegex rest 0"
      using m by (rule FindAllSubmatch1_match) simp
    then have "FindAllSubmatch1 categoryRegex (''[['' @ (''Category:'' @ t) @ '']]'' @ rest) 0 =
          t # FindAllSubmatch1 categoryRegex rest 0"
      by simp
    with True Ref show ?thesis unfolding t_def [symmetric] b [symmetric]
      by (simp add: t_def)
  qed
qed

lemma FindAll_category_segs:
  "list_all category_seg segs \<Longrightarrow>
   FindAllSubmatch1 categoryRegex (render_text segs @ rest) 0 =
     concat (map category_targets segs) @ FindAllSubmatch1 categoryRegex rest 0"
  by (induction segs) (simp_all add: render_text_def FindAll_category_seg)

lemma FindAllStringSubmatch1_categories:
  "list_all category_seg segs \<Longrightarrow>
   FindAllStringSubmatch1 categoryRegex (render_text segs) =
     concat (map category_targets segs)"
  using FindAll_category_segs [of segs "[]"] by (simp add: FindAllStringSubmatch1_def)


section \<open>The scan for references\<close>

lemma bt_lazy_first_close:
  "list_all (cls_match c) u \<Longrightarrow> \<not> sublist '']]'' (u @ '']'') \<Longrightarrow>
   bt [StarLazy c, GroupClose, Lit '']]''] (u @ '']]'' @ rest)
      \<lparr>consumed = n, opened = Some g, group1 = g0\<rparr> =
   Some \<lparr>consumed = n + length u + 2, opened = None, group1 = g @ u\<rparr>"
proof (induction u arbitrary: n g)
  case Nil
  show ?case by (simp add: close_group_def consume_def)
next
  case (Cons y u)
  from Cons.prems(2) have np: "\<not> prefix '']]'' (y # u @ '']'')" and ns: "\<not> sublist '']]'' (u @ '']'')"
    by (simp_all add: sublist_Cons_right)
  from np have t: "take 2 (y # u @ '']]'' @ rest) \<noteq> '']]''"
    by (cases u) (auto simp: prefix_Cons)
  from Cons.prems(1) ns have "bt [StarLazy c, GroupClose, Lit '']]''] (u @ '']]'' @ rest)
      \<lparr>consumed = Suc n, opened = Some (g @ [y]), group1 = g0\<rparr> =
   Some \<lparr>consumed = Suc n + length u + 2, opened = None, group1 = (g @ [y]) @ u\<rparr>"
    using Cons.IH by simp
  with Cons.prems(1) t show ?case by (auto simp: close_group_def consume_def)
qed

lemma bt_lazy_first_close_only:
  "bt [StarLazy c, GroupClose, Lit '']]''] s \<lparr>consumed = n, opened = Some g, group1 = g0\<rparr> = Some m \<Longrightarrow>
   \<exists>u rest. s = u @ '']]'' @ rest \<and> list_all (cls_match c) u \<and> \<not> sublist '']]'' (u @ '']'') \<and>
     m = \<lparr>consumed = n + length u + 2, opened = None, group1 = g @ u\<rparr>"
proof (induction s arbitrary: n g)
  case Nil
  then show ?case by simp
next
  case (Cons x s)
  show ?case
  proof (cases "take 2 (x # s) = '']]''")
    case True
    then have "x # s = [] @ '']]'' @ drop 2 (x # s)" by (metis append_Nil append_take_drop_id)
    moreover from True Cons.prems have "m = \<lparr>consumed = n + length ([]::string) + 2, opened = None, group1 = g @ []\<rparr>"
      by (auto simp: close_group_def consume_def)
    moreover have "\<not> sublist '']]'' ([] @ '']'')" by (simp add: sublist_Cons_right prefix_Cons)
    moreover have "list_all (cls_match c) []" by simp
    ultimately show ?thesis by blast
  next
    case False
    with Cons.prems have cx: "cls_match c x" and
      r: "bt [StarLazy c, GroupClose, Lit '']]''] s
            \<lparr>consumed = Suc n, opened = Some (g @ [x]), group1 = g0\<rparr> = Some m"
      by (auto simp: close_group_def consume_def split: if_splits)
    from Cons.IH [OF r] obtain u rest where
      u: "s = u @ '']]'' @ rest" "list_all (cls_match c) u" "\<not> sublist '']]'' (u @ '']'')"
        "m = \<lparr>consumed = Suc n + length u + 2, opened = None, group1 = (g @ [x]) @ u\<rparr>"
      by blast
    from False u(1) have "\<not> prefix '']]'' (x # u @ '']'')"
      by (cases u) (auto simp: prefix_Cons)
    with u(3) have "\<not> sublist '']]'' ((x # u) @ '']'')" by (simp add: sublist_Cons_right)
    moreover from u(1) have "x # s = (x # u) @ '']]'' @ rest" by simp
    moreover from u(2) cx have "list_all (cls_match c) (x # u)" by simp
    moreover from u(4) have "m = \<lparr>consumed = n + length (x # u) + 2, opened = None, group1 = g @ (x # u)\<rparr>"
      by simp
    ultimately show ?thesis by blast
  qed
qed


lemma bt_reference:
  assumes "reference_at pre c s t rest"
  shows "bt (bracketed pre c) s start_match =
         Some \<lparr>consumed = length pre + length t + 2, opened = None, group1 = t\<rparr>"
proof -
  from assms obtain y u where t: "t = y # u" by (cases t) (auto simp: reference_at_def)
  with assms have s: "s = pre @ y # u @ '']]'' @ rest" and y: "cls_match c y"
    and u: "list_all (cls_match c) u" "\<not> sublist '']]'' (u @ '']'')"
    by (simp_all add: reference_at_def)
  from bt_lazy_first_close [OF u, of rest "Suc (length pre)" "[y]" "[]"] y s t
  show ?thesis by (simp add: bracketed_def start_match_def consume_def open_group_def)
qed

lemma bt_reference_only:
  assumes "bt (bracketed pre c) s start_match = Some m"
  shows "\<exists>t rest. reference_at pre c s t rest \<and>
           m = \<lparr>consumed = length pre + length t + 2, opened = None, group1 = t\<rparr>"
proof -
  from assms have p: "take (length pre) s = pre" and
    b: "bt [PlusLazy c, GroupClose, Lit '']]''] (drop (length pre) s)
          \<lparr>consumed = length pre, opened = Some [], group1 = []\<rparr> = Some m"
    by (auto simp: bracketed_def start_match_def consume_def open_group_def split: if_splits)
  from b obtain y s' where d: "drop (length pre) s = y # s'"
    by (cases "drop (length pre) s") auto
  with b have y: "cls_match c y" and
    r: "bt [StarLazy c, GroupClose, Lit '']]''] s'
          \<lparr>consumed = Suc (length pre), opened = Some [y], group1 = []\<rparr> = Some m"
    by (auto simp: consume_def split: if_splits)
  from bt_lazy_first_close_only [OF r] obtain u rest where
    u: "s' = u @ '']]'' @ rest" "list_all (cls_match c) u" "\<not> sublist '']]'' (u @ '']'')"
      "m = \<lparr>consumed = Suc (length pre) + length u + 2, opened = None, group1 = [y] @ u\<rparr>"
    by blast
  from p d u(1) have "s = pre @ (y # u) @ '']]'' @ rest"
    by (metis append_Cons append_take_drop_id)
  with y u(2,3) have "reference_at pre c s (y # u) rest" by (simp add: reference_at_def)
  moreover from u(4) have
    "m = \<lparr>consumed = length pre + length (y # u) + 2, opened = None, group1 = y # u\<rparr>"
    by simp
  ultimately show ?thesis by blast
qed

lemma bt_no_reference:
  "(bt (bracketed pre c) s start_match = None) = (\<not> (\<exists>t rest. reference_at pre c s t rest))"
proof (cases "bt (bracketed pre c) s start_match")
  case None
  then show ?thesis using bt_reference by fastforce
next
  case (Some m)
  then show ?thesis using bt_reference_only by fastforce
qed

lemma FindAllSubmatch1_reference:
  assumes "reference_at pre c s t rest"
  shows "FindAllSubmatch1 (bracketed pre c) s 0 = t # FindAllSubmatch1 (bracketed pre c) rest 0"
proof -
  from assms have s: "s = (pre @ t @ '']]'') @ rest" and "t \<noteq> []"
    by (simp_all add: reference_at_def)
  then obtain x w where xw: "pre @ t @ '']]'' = x # w" by (cases "pre @ t @ '']]''") auto
  then have l: "Suc (length w) = length pre + length t + 2"
    by (metis length_Cons length_append One_nat_def Suc_1 add_Suc_right list.size(3) add.assoc)
  from s xw have sx: "s = x # w @ rest" by simp
  from bt_reference [OF assms] sx l
  have "bt (bracketed pre c) (x # w @ rest) start_match =
        Some \<lparr>consumed = Suc (length w), opened = None, group1 = t\<rparr>"
    by simp
  then have "FindAllSubmatch1 (bracketed pre c) (x # w @ rest) 0 =
      group1 \<lparr>consumed = Suc (length w), opened = None, group1 = t\<rparr> #
      FindAllSubmatch1 (bracketed pre c) rest 0"
    by (rule FindAllSubmatch1_match) simp
  with sx show ?thesis by simp
qed

lemma references_of_unique:
  "references_of pre c s ts \<Longrightarrow> ts = FindAllSubmatch1 (bracketed pre c) s 0"
proof (induction rule: references_of.induct)
  case end_of_text
  show ?case by simp
next
  case (reference s t rest ts)
  then show ?case by (simp add: FindAllSubmatch1_reference)
next
  case (no_reference x s ts)
  from no_reference.hyps(1) have "bt (bracketed pre c) (x # s) start_match = None"
    by (simp only: bt_no_reference not_False_eq_True)
  with no_reference.IH show ?case by simp
qed

lemma references_of_FindAll:
  "references_of pre c s (FindAllSubmatch1 (bracketed pre c) s 0)"
proof (induction s rule: length_induct)
  case (1 s)
  show ?case
  proof (cases s)
    case Nil
    then show ?thesis by (simp add: end_of_text)
  next
    case (Cons x s')
    show ?thesis
    proof (cases "\<exists>t rest. reference_at pre c s t rest")
      case True
      then obtain t rest where r: "reference_at pre c s t rest" by blast
      then have "length rest < length s" by (simp add: reference_at_def)
      with 1 have "references_of pre c rest (FindAllSubmatch1 (bracketed pre c) rest 0)"
        by blast
      with r have "references_of pre c s (t # FindAllSubmatch1 (bracketed pre c) rest 0)"
        by (rule reference)
      with r show ?thesis by (simp add: FindAllSubmatch1_reference)
    next
      case False
      with Cons have n: "\<not> (\<exists>t rest. reference_at pre c (x # s') t rest)" by simp
      then have b: "bt (bracketed pre c) (x # s') start_match = None"
        by (simp only: bt_no_reference not_False_eq_True)
      from 1 Cons have "references_of pre c s' (FindAllSubmatch1 (bracketed pre c) s' 0)"
        by simp
      with n have "references_of pre c (x # s') (FindAllSubmatch1 (bracketed pre c) s' 0)"
        by (rule no_reference)
      with b Cons show ?thesis by simp
    qed
  qed
qed

lemma references_of_iff:
  "references_of pre c s ts = (ts = FindAllSubmatch1 (bracketed pre c) s 0)"
  using references_of_unique references_of_FindAll by blast

lemma linkRegex_bracketed: "linkRegex = bracketed ''[['' (NoneOf ''|'')"
  by (simp add: linkRegex_def bracketed_def)

lemma categoryRegex_bracketed: "categoryRegex = bracketed ''[[Category:'' AnyChar"
  by (simp add: categoryRegex_def bracketed_def)


lemma GetLinks_page_references:
  "\<exists>ts. references_of ''[['' (NoneOf ''|'') (Text (Revision p)) ts \<and>
     GetLinks_page p = p\<lparr>Links := Links p @ ts\<rparr>"
  using references_of_FindAll [of "''[[''" "NoneOf ''|''" "Text (Revision p)"]
  by (auto simp: GetLinks_page_def FindAllStringSubmatch1_def linkRegex_bracketed)

lemma GetLinks_references:
  "list_all2
     (\<lambda>p q. \<exists>ts. references_of ''[['' (NoneOf ''|'') (Text (Revision p)) ts \<and>
        q = p\<lparr>Links := Links p @ ts\<rparr>)
     pages (GetLinks pages)"
  unfolding GetLinks_def
  by (induction pages) (simp_all add: GetLinks_page_references)

lemma GetCategories_page_references:
  "\<exists>ts. references_of ''[[Category:'' AnyChar (Text (Revision p)) ts \<and>
     GetCategories_page p =
       p\<lparr>Categories := map (\<lambda>t. Trim t [CHR '' '', CHR 0x09, CHR ''|'']) ts\<rparr>"
  using references_of_FindAll [of "''[[Category:''" AnyChar "Text (Revision p)"]
  by (auto simp: GetCategories_page_def FindAllStringSubmatch1_def categoryRegex_bracketed)

lemma GetCategories_references:
  "list_all2
     (\<lambda>p q. \<exists>ts. references_of ''[[Category:'' AnyChar (Text (Revision p)) ts \<and>
        q = p\<lparr>Categories := map (\<lambda>t. Trim t [CHR '' '', CHR 0x09, CHR ''|'']) ts\<rparr>)
     pages (GetCategories pages)"
  unfolding GetCategories_def
  by (induction pages) (simp_all add: GetCategories_page_references)

section \<open>Links and categories of a text\<close>

text \<open>
  C1, as the code has it. For every page, \<^verbatim>\<open>GetLinks\<close> appends to the links the page
  has the targets of the references of its text, as they stand, with repetitions and in
  their order, where the references are those a scan from left to right finds: each is
  the first, from the end of the one before, of \<^verbatim>\<open>[[\<close>, a target that is not empty,
  holds no pipe and ends before the first \<^verbatim>\<open>]]\<close> that can close it, and
  \<^verbatim>\<open>]]\<close>. Nothing in the pattern sets \<^verbatim>\<open>Category:\<close> apart, so the category
  references are among them. This is so for every page that \<^verbatim>\<open>GetLinks\<close> sends, in
  the pipeline too. On a text made of plain stretches and references, the targets added
  are the bodies of the references without a pipe.
\<close>

theorem links_of_text:
  "references_of ''[['' (NoneOf ''|'') (Text (Revision page)) ts =
     (Links (GetLinks_page page) = Links page @ ts) \<and>
   list_all2
     (\<lambda>p q. \<exists>ts. references_of ''[['' (NoneOf ''|'') (Text (Revision p)) ts \<and>
        q = p\<lparr>Links := Links p @ ts\<rparr>)
     pages (GetLinks pages) \<and>
   list_all2
     (\<lambda>p q. \<exists>ts. references_of ''[['' (NoneOf ''|'') (Text (Revision p)) ts \<and>
        q = p\<lparr>Links := Links p @ ts\<rparr>)
     (GetPages unmarshal (FilterRedirects (GetRawPages chunks)))
     (Parse_chunks unmarshal chunks) \<and>
   (list_all link_seg segs \<and> Text (Revision page) = render_text segs \<longrightarrow>
      Links (GetLinks_page page) = Links page @ concat (map link_targets segs))"
proof -
  have "references_of ''[['' (NoneOf ''|'') (Text (Revision page)) ts =
     (Links (GetLinks_page page) = Links page @ ts)"
    by (auto simp: references_of_iff GetLinks_page_def FindAllStringSubmatch1_def
        linkRegex_bracketed)
  moreover have "list_all link_seg segs \<and> Text (Revision page) = render_text segs \<longrightarrow>
      Links (GetLinks_page page) = Links page @ concat (map link_targets segs)"
    by (simp add: GetLinks_page_def FindAllStringSubmatch1_links)
  ultimately show ?thesis
    by (simp only: GetLinks_references Parse_chunks_def simp_thms)
qed

theorem links_of_text_witness:
  "references_of ''[['' (NoneOf ''|'') ''[[A]] is related to [[B]] and [[Category:C]]''
     [''A'', ''B'', ''Category:C''] \<and>
   Links (GetLinks_page (sample_page ''[[A]] is related to [[B]] and [[Category:C]]'')) =
     [''A'', ''B'', ''Category:C''] \<and>
   references_of ''[['' (NoneOf ''|'') ''see [1] and [[A|a]] or [[B]]'' [''B''] \<and>
   references_of ''[['' (NoneOf ''|'') ''[[]] [[A]]'' ['']] [[A'']"
proof -
  have l: "Links (GetLinks_page (sample_page ''[[A]] is related to [[B]] and [[Category:C]]'')) =
      [''A'', ''B'', ''Category:C'']"
    "Links (GetLinks_page (sample_page ''see [1] and [[A|a]] or [[B]]'')) = [''B'']"
    "Links (GetLinks_page (sample_page ''[[]] [[A]]'')) = ['']] [[A'']"
    by (simp_all add: match_eval stage_eval)
  have t: "Text (Revision (sample_page body)) = body" "Links (sample_page body) = []" for body
    by (simp_all add: sample_page_def)
  from links_of_text [of "sample_page ''[[A]] is related to [[B]] and [[Category:C]]''"
      "[''A'', ''B'', ''Category:C'']" "[]" sample_unmarshal "[]" "[]"]
    links_of_text [of "sample_page ''see [1] and [[A|a]] or [[B]]''" "[''B'']" "[]"
      sample_unmarshal "[]" "[]"]
    links_of_text [of "sample_page ''[[]] [[A]]''" "['']] [[A'']" "[]" sample_unmarshal "[]" "[]"]
  show ?thesis unfolding l t by simp
qed

theorem links_of_text_counterexample:
  "Links (GetLinks_page (sample_page ''[[A]] is related to [[B]] and [[Category:C]]'')) \<noteq>
     [''A'', ''B'']"
  by (simp add: match_eval stage_eval)

text \<open>
  C9, as the code has it. For every page, \<^verbatim>\<open>GetCategories\<close> sets the categories to
  the targets of the category references of its text, each with the spaces, tabs and
  pipes at both ends removed, in their order, where the category references are those a
  scan from left to right finds: each is the first, from the end of the one before, of
  \<^verbatim>\<open>[[Category:\<close>, a target that is not empty, holds no line feed and ends before the
  first \<^verbatim>\<open>]]\<close> that can close it, and \<^verbatim>\<open>]]\<close>. A text has exactly one such list of
  targets. Running \<^verbatim>\<open>GetLinks\<close> first changes none of it, and it is so for every page
  that \<^verbatim>\<open>GetCategories\<close> and the categorized pipeline send. On a text made of plain
  stretches and references, the targets are what follows \<^verbatim>\<open>Category:\<close> in the bodies
  that begin with it.
\<close>

theorem categories_of_text:
  "(references_of ''[[Category:'' AnyChar (Text (Revision page)) ts \<longrightarrow>
      Categories (GetCategories_page page) =
        map (\<lambda>t. Trim t [CHR '' '', CHR 0x09, CHR ''|'']) ts \<and>
      Categories (GetCategories_page (GetLinks_page page)) =
        map (\<lambda>t. Trim t [CHR '' '', CHR 0x09, CHR ''|'']) ts) \<and>
   (\<exists>ts. references_of ''[[Category:'' AnyChar (Text (Revision page)) ts) \<and>
   (references_of ''[[Category:'' AnyChar body ts \<and>
    references_of ''[[Category:'' AnyChar body ts' \<longrightarrow> ts = ts') \<and>
   list_all2
     (\<lambda>p q. \<exists>ts. references_of ''[[Category:'' AnyChar (Text (Revision p)) ts \<and>
        q = p\<lparr>Categories := map (\<lambda>t. Trim t [CHR '' '', CHR 0x09, CHR ''|'']) ts\<rparr>)
     pages (GetCategories pages) \<and>
   list_all2
     (\<lambda>p q. \<exists>ts. references_of ''[[Category:'' AnyChar (Text (Revision p)) ts \<and>
        q = p\<lparr>Categories := map (\<lambda>t. Trim t [CHR '' '', CHR 0x09, CHR ''|'']) ts\<rparr>)
     (Parse_chunks unmarshal chunks) (CategorizedParse_chunks unmarshal chunks) \<and>
   (list_all category_seg segs \<and> Text (Revision page) = render_text segs \<longrightarrow>
      Categories (GetCategories_page page) =
        map (\<lambda>t. Trim t [CHR '' '', CHR 0x09, CHR ''|''])
          (concat (map category_targets segs)))"
proof -
  have "references_of ''[[Category:'' AnyChar (Text (Revision page)) ts \<longrightarrow>
      Categories (GetCategories_page page) =
        map (\<lambda>t. Trim t [CHR '' '', CHR 0x09, CHR ''|'']) ts \<and>
      Categories (GetCategories_page (GetLinks_page page)) =
        map (\<lambda>t. Trim t [CHR '' '', CHR 0x09, CHR ''|'']) ts"
    by (auto simp: references_of_iff GetCategories_page_def GetLinks_page_def
        FindAllStringSubmatch1_def categoryRegex_bracketed)
  moreover have "\<exists>ts. references_of ''[[Category:'' AnyChar (Text (Revision page)) ts"
    using references_of_FindAll by blast
  moreover have "references_of ''[[Category:'' AnyChar body ts \<and>
    references_of ''[[Category:'' AnyChar body ts' \<longrightarrow> ts = ts'"
    by (simp add: references_of_iff)
  moreover have "list_all category_seg segs \<and> Text (Revision page) = render_text segs \<longrightarrow>
      Categories (GetCategories_page page) =
        map (\<lambda>t. Trim t [CHR '' '', CHR 0x09, CHR ''|''])
          (concat (map category_targets segs))"
    by (simp add: GetCategories_page_def FindAllStringSubmatch1_categories)
  ultimately show ?thesis
    by (simp only: GetCategories_references CategorizedParse_chunks_def simp_thms)
qed

theorem categories_of_text_witness:
  "references_of ''[[Category:'' AnyChar ''[[Category: Foo | ]]'' ['' Foo | ''] \<and>
   Categories (GetCategories_page (sample_page ''[[Category: Foo | ]]'')) = [''Foo''] \<and>
   references_of ''[[Category:'' AnyChar ''[[A]] is related to [[B]] and [[Category:C]]''
     [''C''] \<and>
   Categories (GetCategories_page
     (sample_page ''[[A]] is related to [[B]] and [[Category:C]]'')) = [''C'']"
proof -
  have t: "Text (Revision (sample_page body)) = body" for body
    by (simp add: sample_page_def)
  have r1: "references_of ''[[Category:'' AnyChar
      (Text (Revision (sample_page ''[[Category: Foo | ]]''))) ['' Foo | '']"
    unfolding t references_of_iff
    by (simp add: bracketed_def start_match_def consume_def open_group_def close_group_def)
  have r2: "references_of ''[[Category:'' AnyChar
      (Text (Revision (sample_page ''[[A]] is related to [[B]] and [[Category:C]]''))) [''C'']"
    unfolding t references_of_iff
    by (simp add: bracketed_def start_match_def consume_def open_group_def close_group_def)
  from categories_of_text [where page = "sample_page ''[[Category: Foo | ]]''"
      and ts = "['' Foo | '']" and body = "[]" and ts' = "[]" and pages = "[]"
      and unmarshal = sample_unmarshal and chunks = "[]" and segs = "[]"] r1
  have "Categories (GetCategories_page (sample_page ''[[Category: Foo | ]]'')) =
        map (\<lambda>t. Trim t [CHR '' '', CHR 0x09, CHR ''|'']) ['' Foo | '']"
    by blast
  moreover
  from categories_of_text
      [where page = "sample_page ''[[A]] is related to [[B]] and [[Category:C]]''"
      and ts = "[''C'']" and body = "[]" and ts' = "[]" and pages = "[]"
      and unmarshal = sample_unmarshal and chunks = "[]" and segs = "[]"] r2
  have "Categories (GetCategories_page
          (sample_page ''[[A]] is related to [[B]] and [[Category:C]]'')) =
        map (\<lambda>t. Trim t [CHR '' '', CHR 0x09, CHR ''|'']) [''C'']"
    by blast
  ultimately show ?thesis using r1 r2 unfolding t by (simp add: Trim_def)
qed

theorem categories_of_text_counterexample:
  "Categories (GetCategories_page (sample_page ''[[Category:]] then [[Category:Real]]'')) =
     ['']] then [[Category:Real''] \<and>
   ''Real'' \<notin> set (Categories
     (GetCategories_page (sample_page ''[[Category:]] then [[Category:Real]]''))) \<and>
   Categories (GetCategories_page (sample_page (''[[Category:A'' @ CHR 0x0A # ''B]]''))) = []"
  by (simp add: match_eval stage_eval)

section \<open>FilterRedirects\<close>





section \<open>The pipeline on a dump of pages\<close>









end
